theory Spec2Isabelle
  imports Complex_Main
begin

section \<open>JavaScript strings as used by the cloze plugin\<close>

text \<open>
  Strings are lists of characters. The model is exact on ASCII text: \<open>trim\<close> removes
  the ASCII white space and line terminators (TAB, LF, VT, FF, CR, SPACE) from both ends,
  and \<open>toLowerCase\<close> maps \<open>A\<close>..\<open>Z\<close> to \<open>a\<close>..\<open>z\<close> and leaves every other character
  alone. The non-ASCII white space and the Unicode case mappings of JavaScript are outside
  the model.
\<close>

definition is_whitespace :: "char \<Rightarrow> bool" where
  "is_whitespace c =
     (c \<in> set [CHR 0x09, CHR 0x0A, CHR 0x0B, CHR 0x0C, CHR 0x0D, CHR 0x20])"

definition trim :: "string \<Rightarrow> string" where
  "trim s = rev (dropWhile is_whitespace (rev (dropWhile is_whitespace s)))"

definition lower_char :: "char \<Rightarrow> char" where
  "lower_char c =
     (let n = (of_char c :: nat) in if 65 \<le> n \<and> n \<le> 90 then char_of (n + 32) else c)"

definition upper_char :: "char \<Rightarrow> char" where
  "upper_char c =
     (let n = (of_char c :: nat) in if 97 \<le> n \<and> n \<le> 122 then char_of (n - 32) else c)"

definition toLowerCase :: "string \<Rightarrow> string" where
  "toLowerCase s = map lower_char s"

text \<open>
  \<open>s.split(sep)\<close> for a one-character separator: the pieces between the occurrences of
  the separator, so a string with \<open>k\<close> separators has \<open>k + 1\<close> pieces and the empty
  string has the one piece \<open>""\<close>.
\<close>

fun split :: "char \<Rightarrow> string \<Rightarrow> string list" where
  "split sep [] = [[]]"
| "split sep (c # cs) =
     (if c = sep then [] # split sep cs
      else (c # hd (split sep cs)) # tl (split sep cs))"

text \<open>\<open>xs.includes(x)\<close> on an array of strings.\<close>

definition array_includes :: "'a list \<Rightarrow> 'a \<Rightarrow> bool" where
  "array_includes xs x = (x \<in> set xs)"

section \<open>The trial parameters\<close>

text \<open>
  The resolved parameters of one trial. The callback \<open>mistake_fn\<close> is opaque: a call of
  it is the outcome \<open>MistakeFn\<close> below.
\<close>

record trial_params =
  "text" :: string
  button_text :: string
  check_answers :: bool
  allow_blanks :: bool
  case_sensitivity :: bool
  autofocus :: bool

text \<open>The defaults of \<open>info.parameters\<close>, for a given text.\<close>

definition default_params :: "string \<Rightarrow> trial_params" where
  "default_params t =
     \<lparr> text = t, button_text = ''OK'', check_answers = False, allow_blanks = True,
       case_sensitivity = True, autofocus = True \<rparr>"

section \<open>getSolutions\<close>

text \<open>
  The loop \<open>for (let i = 1; i < elements.length; i += 2)\<close>, pushing the alternatives of
  the element at each odd index.
\<close>

definition solution_of :: "bool \<Rightarrow> string \<Rightarrow> string list" where
  "solution_of case_sensitive element =
     (if case_sensitive then split (CHR ''/'') (trim element)
      else split (CHR ''/'') (trim (toLowerCase element)))"

function getSolutions_loop ::
  "bool \<Rightarrow> string list \<Rightarrow> nat \<Rightarrow> string list list \<Rightarrow> string list list" where
  "getSolutions_loop case_sensitive elements i solutions =
     (if i < length elements
      then getSolutions_loop case_sensitive elements (i + 2)
             (solutions @ [solution_of case_sensitive (elements ! i)])
      else solutions)"
  by pat_completeness auto
termination
  by (relation "measure (\<lambda>(cs, elements, i, solutions). length elements - i)") auto

declare getSolutions_loop.simps [simp del]

definition getSolutions :: "string \<Rightarrow> bool \<Rightarrow> string list list" where
  "getSolutions txt case_sensitive =
     getSolutions_loop case_sensitive (split (CHR ''%'') txt) 1 []"

section \<open>The rendered surface\<close>

text \<open>
  The markup assembled by \<open>trial\<close> is kept as the list of children of the
  \<open><div class="cloze">\<close> element: a literal segment of the text, or the text input
  \<open><input type="text" id="input<k>" value="">\<close>. The text is an HTML string, and the
  browser parses the literal segments together with the inputs. The model does not parse
  them: the inputs of the surface are the inputs that \<open>trial\<close> writes. This is exact for
  a text without markup (\<open>plain_text\<close> below); for a text with markup the statements
  below speak of the markup written, or assume the surface.
\<close>

datatype html_node = Literal string | TextInput nat

text \<open>An \<open>HTMLInputElement\<close>: its current value and its \<open>style.color\<close>.\<close>

record input_field =
  "value" :: string
  color :: string

text \<open>
  The display element after rendering: the children of the div, the label of the button
  \<open>#finish_cloze_button\<close>, the text inputs in document order and the id of the focused
  input, if any.
\<close>

record surface =
  innerHTML :: "html_node list"
  button :: string
  inputs :: "input_field list"
  focused :: "nat option"

datatype error = TypeError | UndefinedResponse

text \<open>
  The loop \<open>for (var i = 0; i < elements.length; i++)\<close> of \<open>trial\<close>: elements at even
  indices are text, elements at odd indices become inputs numbered by
  \<open>solution_counter\<close>.
\<close>

function render_loop ::
  "string list \<Rightarrow> nat \<Rightarrow> html_node list \<Rightarrow> nat \<Rightarrow> html_node list \<times> nat" where
  "render_loop elements i html solution_counter =
     (if i < length elements
      then (if i mod 2 = 0
            then render_loop elements (i + 1) (html @ [Literal (elements ! i)]) solution_counter
            else render_loop elements (i + 1) (html @ [TextInput solution_counter])
                   (solution_counter + 1))
      else (html, solution_counter))"
  by pat_completeness auto
termination
  by (relation "measure (\<lambda>(elements, i, html, solution_counter). length elements - i)") auto

declare render_loop.simps [simp del]

text \<open>The ids of the text inputs of a markup, in document order.\<close>

fun input_ids :: "html_node list \<Rightarrow> nat list" where
  "input_ids [] = []"
| "input_ids (Literal s # nodes) = input_ids nodes"
| "input_ids (TextInput k # nodes) = k # input_ids nodes"

text \<open>
  \<open>trial\<close> up to the registration of the click handler and the initial focus. Every
  input of the markup becomes a field with the empty value and no colour set.
  \<open>display_element.querySelector("#input0")\<close> is \<open>null\<close> when no input has the id 0,
  and the call of \<open>focus\<close> on it then raises a \<open>TypeError\<close>.
\<close>

definition trial :: "trial_params \<Rightarrow> error + surface" where
  "trial p =
     (let elements = split (CHR ''%'') (text p);
          rendered = render_loop elements 0 [] 0;
          display = \<lparr> innerHTML = fst rendered, button = button_text p,
                      inputs = map (\<lambda>k. \<lparr> value = '''', color = '''' \<rparr>) (input_ids (fst rendered)),
                      focused = None \<rparr>
      in if autofocus p
         then (if 0 \<in> set (input_ids (innerHTML display))
               then Inr (display \<lparr> focused := Some 0 \<rparr>)
               else Inl TypeError)
         else Inr display)"

section \<open>The click handler \<open>check\<close>\<close>

record trial_data =
  response :: "string list"

datatype outcome = MistakeFn | FinishTrial trial_data

text \<open>
  One iteration of the loop of \<open>check\<close> at index \<open>i\<close>, on the state (fields, answers,
  answers_correct, answers_filled). The field is \<open>fields ! i\<close>, the element with the id
  \<open>input<i>\<close>.
\<close>

definition check_step ::
  "trial_params \<Rightarrow> string list list \<Rightarrow> nat \<Rightarrow>
   input_field list \<times> string list \<times> bool \<times> bool \<Rightarrow>
   input_field list \<times> string list \<times> bool \<times> bool" where
  "check_step p solutions i st =
     (case st of (flds, answers0, answers_correct, answers_filled) \<Rightarrow>
        let field = flds ! i;
            answers = answers0 @
              [if case_sensitivity p then trim (value field)
               else trim (toLowerCase (value field))];
            st1 = (if check_answers p
                   then (if \<not> array_includes (solutions ! i) (answers ! i)
                         then (flds[i := field \<lparr> color := ''red'' \<rparr>], False)
                         else (flds[i := field \<lparr> color := ''black'' \<rparr>], answers_correct))
                   else (flds, answers_correct));
            filled = (if \<not> allow_blanks p
                      then (if answers ! i = '''' then False else answers_filled)
                      else answers_filled)
        in (fst st1, answers, snd st1, filled))"

text \<open>
  The loop \<open>for (var i = 0; i < solutions.length; i++)\<close>. When no element has the id
  \<open>input<i>\<close>, \<open>document.getElementById\<close> returns \<open>null\<close> and reading \<open>field.value\<close>
  raises a \<open>TypeError\<close>.
\<close>

function check_loop ::
  "trial_params \<Rightarrow> string list list \<Rightarrow> nat \<Rightarrow>
   input_field list \<times> string list \<times> bool \<times> bool \<Rightarrow>
   error + input_field list \<times> string list \<times> bool \<times> bool" where
  "check_loop p solutions i st =
     (if i < length solutions
      then (if i < length (fst st)
            then check_loop p solutions (i + 1) (check_step p solutions i st)
            else Inl TypeError)
      else Inr st)"
  by pat_completeness auto
termination
  by (relation "measure (\<lambda>(p, solutions, i, st). length solutions - i)") auto

declare check_loop.simps [simp del]

text \<open>
  \<open>check\<close>: the solutions are those computed by \<open>trial\<close> from the text. The result is
  the surface with the colours written by the loop, and either the call of \<open>mistake_fn\<close>
  or the call of \<open>finishTrial\<close> with the trial data.
\<close>

definition check :: "trial_params \<Rightarrow> surface \<Rightarrow> error + surface \<times> outcome" where
  "check p display =
     (case check_loop p (getSolutions (text p) (case_sensitivity p)) 0
             (inputs display, [], True, True) of
        Inl e \<Rightarrow> Inl e
      | Inr (flds, answers, answers_correct, answers_filled) \<Rightarrow>
          Inr (display \<lparr> inputs := flds \<rparr>,
               if (check_answers p \<and> \<not> answers_correct) \<or> (\<not> allow_blanks p \<and> \<not> answers_filled)
               then MistakeFn
               else FinishTrial \<lparr> response = answers \<rparr>))"

section \<open>Simulation\<close>

text \<open>
  The services of the host (\<open>jsPsych.randomization\<close>, \<open>Math.random\<close>,
  \<open>jsPsych.pluginAPI\<close>) are not part of the plugin; they are parameters. Each random
  service is the sequence of its results: \<open>randomWords h k\<close> is the word \<open>word[0]\<close> of
  the call number \<open>k\<close> of \<open>randomWords({ exactly: 1 })\<close>, \<open>Math_random h k\<close> the result
  of the call number \<open>k\<close> of \<open>Math.random()\<close> (a number in \<open>[0, 1)\<close>, here a real),
  \<open>sampleExGaussian h k\<close> the result of the call number \<open>k\<close> of
  \<open>sampleExGaussian(750, 200, 0.01, true)\<close>. \<open>mergeSimulationData h\<close> is the merge of
  the default data with the simulation options.
\<close>

record host =
  randomWords :: "nat \<Rightarrow> string"
  Math_random :: "nat \<Rightarrow> real"
  sampleExGaussian :: "nat \<Rightarrow> real"
  mergeSimulationData :: "trial_data \<Rightarrow> trial_data"

text \<open>The calls of the two random services made so far, in order.\<close>

datatype service_call = RandomWordsCall | MathRandomCall

definition calls_of :: "service_call \<Rightarrow> service_call list \<Rightarrow> nat" where
  "calls_of c calls = length (filter (\<lambda>x. x = c) calls)"

text \<open>
  The loop \<open>for (const wordList of solutions)\<close> of \<open>create_simulation_data\<close>. An index
  \<open>Math.floor(Math.random() * wordList.length)\<close> outside the list would push
  \<open>undefined\<close>, which is no string: that branch is \<open>UndefinedResponse\<close> (it is not
  reached while \<open>Math.random\<close> stays in \<open>[0, 1)\<close>).
\<close>

fun simulation_loop ::
  "host \<Rightarrow> string list list \<Rightarrow> string list \<Rightarrow> service_call list \<Rightarrow>
   error + string list \<times> service_call list" where
  "simulation_loop h [] responses calls = Inr (responses, calls)"
| "simulation_loop h (wordList # rest) responses calls =
     (if array_includes wordList ''''
      then simulation_loop h rest
             (responses @ [randomWords h (calls_of RandomWordsCall calls)])
             (calls @ [RandomWordsCall])
      else (let k = \<lfloor>Math_random h (calls_of MathRandomCall calls) * real (length wordList)\<rfloor>
            in if 0 \<le> k \<and> k < int (length wordList)
               then simulation_loop h rest (responses @ [wordList ! nat k])
                      (calls @ [MathRandomCall])
               else Inl UndefinedResponse))"

definition create_simulation_data ::
  "host \<Rightarrow> trial_params \<Rightarrow> error + trial_data \<times> service_call list" where
  "create_simulation_data h p =
     (case simulation_loop h (getSolutions (text p) (case_sensitivity p)) [] [] of
        Inl e \<Rightarrow> Inl e
      | Inr (responses, calls) \<Rightarrow>
          Inr (mergeSimulationData h \<lparr> response = responses \<rparr>, calls))"

definition simulate_data_only :: "host \<Rightarrow> trial_params \<Rightarrow> error + outcome" where
  "simulate_data_only h p =
     (case create_simulation_data h p of
        Inl e \<Rightarrow> Inl e
      | Inr (data, calls) \<Rightarrow> Inr (FinishTrial data))"

text \<open>
  The events that \<open>simulate_visual\<close> schedules through the plugin API:
  \<open>fillTextInput(inputs[i], value, rt)\<close>, where \<open>inputs[i]\<close> is \<open>undefined\<close> (here
  \<open>None\<close>) beyond the inputs of the surface, and \<open>clickTarget(button, rt)\<close>.
\<close>

datatype scheduled = FillTextInput "nat option" string real | ClickTarget real

fun time_of :: "scheduled \<Rightarrow> real" where
  "time_of (FillTextInput i v t) = t"
| "time_of (ClickTarget t) = t"

text \<open>
  The loop \<open>for (let i = 0; i < data.response.length; i++)\<close>: the iteration \<open>i\<close>
  schedules the fill at \<open>rt\<close> and adds the sample of the call number \<open>i + 1\<close> (the call
  number 0 gave the initial \<open>rt\<close>).
\<close>

function fill_loop ::
  "host \<Rightarrow> nat \<Rightarrow> string list \<Rightarrow> nat \<Rightarrow> real \<Rightarrow> scheduled list \<Rightarrow> scheduled list \<times> real" where
  "fill_loop h n_inputs resp i rt events =
     (if i < length resp
      then fill_loop h n_inputs resp (i + 1) (rt + sampleExGaussian h (i + 1))
             (events @ [FillTextInput (if i < n_inputs then Some i else None) (resp ! i) rt])
      else (events, rt))"
  by pat_completeness auto
termination
  by (relation "measure (\<lambda>(h, n_inputs, resp, i, rt, events). length resp - i)") auto

declare fill_loop.simps [simp del]

text \<open>
  \<open>simulate_visual\<close>: the data are created, the surface is rendered by \<open>trial\<close> (which
  may raise), then the fills and the click are scheduled. The result is the surface and
  the scheduled events in the order of the calls.
\<close>

definition simulate_visual ::
  "host \<Rightarrow> trial_params \<Rightarrow> error + surface \<times> scheduled list" where
  "simulate_visual h p =
     (case create_simulation_data h p of
        Inl e \<Rightarrow> Inl e
      | Inr (data, calls) \<Rightarrow>
          (case trial p of
             Inl e \<Rightarrow> Inl e
           | Inr display \<Rightarrow>
               (let filled = fill_loop h (length (inputs display)) (response data) 0
                               (sampleExGaussian h 0) []
                in Inr (display, fst filled @ [ClickTarget (snd filled)]))))"

section \<open>Notions used in the statements\<close>

text \<open>The node that the rendering loop appends for the element at index \<open>j\<close>.\<close>

definition node_at :: "string list \<Rightarrow> nat \<Rightarrow> html_node" where
  "node_at es j = (if j mod 2 = 0 then Literal (es ! j) else TextInput (j div 2))"

text \<open>
  The answer that \<open>check\<close> pushes for a field (the value trimmed, lower-cased first when
  case sensitivity is off), and the colour that it writes for the field when the answers
  are checked.
\<close>

definition answer_of :: "trial_params \<Rightarrow> input_field \<Rightarrow> string" where
  "answer_of p f =
     (if case_sensitivity p then trim (value f) else trim (toLowerCase (value f)))"

definition flag_of :: "trial_params \<Rightarrow> string list \<Rightarrow> input_field \<Rightarrow> string" where
  "flag_of p sol f = (if answer_of p f \<in> set sol then ''black'' else ''red'')"

text \<open>
  \<open>case_variant x a\<close>: the string \<open>x\<close> is \<open>a\<close> with the case of some of its characters
  changed.
\<close>

definition case_variant :: "string \<Rightarrow> string \<Rightarrow> bool" where
  "case_variant x a =
     list_all2 (\<lambda>c d. c = d \<or> c = upper_char d \<or> c = lower_char d) x a"

text \<open>
  The service that the simulation calls for a word list, the number of calls of a
  service for the blanks before the blank \<open>i\<close>, and the answer simulated for the blank
  \<open>i\<close> when \<open>nw\<close> words and \<open>nr\<close> random numbers were drawn before the loop.
\<close>

definition service_of :: "string list \<Rightarrow> service_call" where
  "service_of wl = (if array_includes wl '''' then RandomWordsCall else MathRandomCall)"

definition draws_before :: "service_call \<Rightarrow> string list list \<Rightarrow> nat \<Rightarrow> nat" where
  "draws_before c sols i = length (filter (\<lambda>wl. service_of wl = c) (take i sols))"

definition simulated_answer ::
  "host \<Rightarrow> nat \<Rightarrow> nat \<Rightarrow> string list list \<Rightarrow> nat \<Rightarrow> string" where
  "simulated_answer h nw nr sols i =
     (if array_includes (sols ! i) ''''
      then randomWords h (nw + draws_before RandomWordsCall sols i)
      else (sols ! i) ! nat \<lfloor>Math_random h (nr + draws_before MathRandomCall sols i)
                                * real (length (sols ! i))\<rfloor>)"

text \<open>
  \<open>ascii_string s\<close>: every character of \<open>s\<close> is an ASCII character. On such strings
  \<open>trim\<close>, \<open>toLowerCase\<close> and \<open>case_variant\<close> are exactly what JavaScript computes.
\<close>

definition ascii_string :: "string \<Rightarrow> bool" where
  "ascii_string s = list_all (\<lambda>c. (of_char c :: nat) < 128) s"

text \<open>
  \<open>plain_text t\<close>: the string holds no \<open><\<close>, so the browser reads it as character
  data: no tag or comment in it can add an element or swallow an input that \<open>trial\<close>
  writes. When the text and the label of the button (which is written into the markup as
  well) are plain, the surface of \<open>trial\<close> is exactly the document that the browser
  builds.
\<close>

definition plain_text :: "string \<Rightarrow> bool" where
  "plain_text t = (CHR ''<'' \<notin> set t)"

text \<open>
  A host for the examples: every word is \<open>word\<close>, every random number is \<open>1/2\<close>, every
  latency sample is \<open>750\<close>, and there are no simulation options to merge.
\<close>

definition example_host :: host where
  "example_host =
     \<lparr> randomWords = (\<lambda>k. ''word''), Math_random = (\<lambda>k. 1 / 2),
       sampleExGaussian = (\<lambda>k. 750), mergeSimulationData = (\<lambda>d. d) \<rparr>"

section \<open>Properties of the loops\<close>

subsection \<open>Splitting and the parser loop\<close>

lemma split_not_Nil: "split sep s \<noteq> []"
  by (induction s) auto

lemma length_split: "length (split sep s) = Suc (count_list s sep)"
  by (induction s) (auto simp: split_not_Nil)

lemma getSolutions_loop_eq:
  "getSolutions_loop cs es i acc =
     acc @ map (\<lambda>k. solution_of cs (es ! (i + 2 * k))) [0..<(length es + 1 - i) div 2]"
proof (induction cs es i acc rule: getSolutions_loop.induct)
  case (1 cs es i acc)
  show ?case
  proof (cases "i < length es")
    case True
    then have n: "(length es + 1 - i) div 2 = Suc ((length es + 1 - (i + 2)) div 2)"
      by arith
    have "map (\<lambda>k. solution_of cs (es ! (i + 2 * k))) [0..<Suc ((length es + 1 - (i + 2)) div 2)]
        = solution_of cs (es ! i) # map (\<lambda>k. solution_of cs (es ! (i + 2 + 2 * k))) [0..<(length es + 1 - (i + 2)) div 2]"
      by (simp add: upt_conv_Cons map_Suc_upt[symmetric] del: upt_Suc)
    with True 1 n show ?thesis
      by (subst getSolutions_loop.simps) simp
  next
    case False
    then have "(length es + 1 - i) div 2 = 0" by arith
    with False show ?thesis by (subst getSolutions_loop.simps) simp
  qed
qed

lemma getSolutions_eq:
  "getSolutions t cs =
     map (\<lambda>k. solution_of cs (split (CHR ''%'') t ! (2 * k + 1)))
       [0..<length (split (CHR ''%'') t) div 2]"
  by (simp add: getSolutions_def getSolutions_loop_eq add.commute)

lemma length_getSolutions:
  "length (getSolutions t cs) = Suc (count_list t (CHR ''%'')) div 2"
  by (simp add: getSolutions_eq length_split)

lemma nth_getSolutions:
  "j < length (getSolutions t cs) \<Longrightarrow>
     getSolutions t cs ! j = solution_of cs (split (CHR ''%'') t ! (2 * j + 1))"
  by (simp add: getSolutions_eq)

lemma solution_of_not_Nil: "solution_of cs e \<noteq> []"
  by (simp add: solution_of_def split_not_Nil)

subsection \<open>The rendering loop\<close>

lemma render_loop_eq:
  "c = i div 2 \<Longrightarrow> i \<le> length es \<Longrightarrow>
     render_loop es i html c = (html @ map (node_at es) [i..<length es], length es div 2)"
proof (induction es i html c rule: render_loop.induct)
  case (1 es i html c)
  show ?case
  proof (cases "i < length es")
    case True
    then have u: "[i..<length es] = i # [i + 1..<length es]"
      by (simp add: upt_conv_Cons)
    show ?thesis
    proof (cases "i mod 2 = 0")
      case even: True
      then have c: "c = (i + 1) div 2" using "1.prems" by presburger
      from True have le: "i + 1 \<le> length es" by simp
      note ih = "1.IH"(1)[OF True even c le]
      have "render_loop es i html c = render_loop es (i + 1) (html @ [Literal (es ! i)]) c"
        using True even by (subst render_loop.simps) simp
      also note ih
      finally show ?thesis using even u by (simp add: node_at_def)
    next
      case odd: False
      then have c: "c + 1 = (i + 1) div 2" using "1.prems" by presburger
      from True have le: "i + 1 \<le> length es" by simp
      note ih = "1.IH"(2)[OF True odd c le]
      have "render_loop es i html c = render_loop es (i + 1) (html @ [TextInput c]) (c + 1)"
        using True odd by (subst render_loop.simps) simp
      also note ih
      finally show ?thesis using odd u "1.prems"(1) by (simp add: node_at_def)
    qed
  next
    case False
    with "1.prems" show ?thesis by (subst render_loop.simps) simp
  qed
qed

lemma input_ids_append: "input_ids (xs @ ys) = input_ids xs @ input_ids ys"
  by (induction xs rule: input_ids.induct) auto

lemma input_ids_nodes: "input_ids (map (node_at es) [0..<n]) = [0..<n div 2]"
proof (induction n)
  case 0
  show ?case by simp
next
  case (Suc n)
  show ?case
  proof (cases "n mod 2 = 0")
    case True
    then have "Suc n div 2 = n div 2" by presburger
    with True Suc show ?thesis by (simp add: input_ids_append node_at_def)
  next
    case False
    then have "Suc n div 2 = Suc (n div 2)" by presburger
    with False Suc show ?thesis by (simp add: input_ids_append node_at_def)
  qed
qed

subsection \<open>White space and lower case\<close>

lemma is_whitespace_iff:
  "is_whitespace c \<longleftrightarrow> (of_char c :: nat) \<in> {9, 10, 11, 12, 13, 32}"
proof -
  have eq: "\<And>d. (c = d) = ((of_char c :: nat) = of_char d)" by simp
  show ?thesis
    unfolding is_whitespace_def by (simp add: eq del: of_char_eq_iff)
qed

lemma of_char_lower_char:
  "(of_char (lower_char c) :: nat) = (if 65 \<le> (of_char c :: nat) \<and> (of_char c :: nat) \<le> 90 then of_char c + 32 else of_char c)"
  by (simp add: lower_char_def Let_def)

lemma is_whitespace_lower_char [simp]: "is_whitespace (lower_char c) = is_whitespace c"
  by (auto simp: is_whitespace_iff of_char_lower_char)

lemma lower_char_idem [simp]: "lower_char (lower_char c) = lower_char c"
proof -
  have "(of_char (lower_char (lower_char c)) :: nat) = of_char (lower_char c)"
    by (simp add: of_char_lower_char)
  then show ?thesis by simp
qed



lemma dropWhile_map_lower:
  "dropWhile is_whitespace (map lower_char s) = map lower_char (dropWhile is_whitespace s)"
  by (induction s) auto

lemma trim_toLowerCase: "trim (toLowerCase s) = toLowerCase (trim s)"
  by (simp add: trim_def toLowerCase_def dropWhile_map_lower rev_map)

subsection \<open>The surface rendered by \<open>trial\<close>\<close>

lemma trial_eq:
  "trial p =
     (if autofocus p \<and> count_list (text p) (CHR ''%'') = 0 then Inl TypeError
      else Inr \<lparr> innerHTML = map (node_at (split (CHR ''%'') (text p)))
                               [0..<Suc (count_list (text p) (CHR ''%''))],
                 button = button_text p,
                 inputs = replicate (Suc (count_list (text p) (CHR ''%'')) div 2)
                            \<lparr> value = [], color = [] \<rparr>,
                 focused = (if autofocus p then Some 0 else None) \<rparr>)"
proof -
  let ?es = "split (CHR ''%'') (text p)"
  have r: "render_loop ?es 0 [] 0 = (map (node_at ?es) [0..<length ?es], length ?es div 2)"
    using render_loop_eq[of 0 0 ?es "[]"] by simp
  have m: "map (\<lambda>k. \<lparr> value = [], color = [] \<rparr>) [0..<n] = replicate n \<lparr> value = [], color = [] \<rparr>" for n
    by (induction n) (simp_all add: replicate_append_same)
  have ids: "input_ids (map (node_at ?es) [0..<length ?es]) = [0..<length ?es div 2]"
    by (rule input_ids_nodes)
  have len: "length ?es = Suc (count_list (text p) (CHR ''%''))"
    by (rule length_split)
  have z: "0 < length ?es div 2 \<longleftrightarrow> count_list (text p) (CHR ''%'') \<noteq> 0"
    unfolding len by presburger
  have "trial p =
     (if autofocus p \<and> \<not> 0 < length ?es div 2 then Inl TypeError
      else Inr \<lparr> innerHTML = map (node_at ?es) [0..<length ?es],
                 button = button_text p,
                 inputs = replicate (length ?es div 2) \<lparr> value = [], color = [] \<rparr>,
                 focused = (if autofocus p then Some 0 else None) \<rparr>)"
    unfolding trial_def Let_def r by (simp add: ids m del: upt_Suc)
  then show ?thesis unfolding z unfolding len by simp
qed

lemma trial_inputs_length:
  "trial p = Inr d \<Longrightarrow> length (inputs d) = length (getSolutions (text p) cs)"
  by (auto simp: trial_eq length_getSolutions split: if_splits)

subsection \<open>The loop of \<open>check\<close>\<close>

lemma check_step_eq:
  assumes "length ans = i"
  shows "check_step p sols i (flds, ans, c, f) =
     ((if check_answers p then flds[i := (flds ! i) \<lparr> color := flag_of p (sols ! i) (flds ! i) \<rparr>]
       else flds),
      ans @ [answer_of p (flds ! i)],
      (if check_answers p \<and> answer_of p (flds ! i) \<notin> set (sols ! i) then False else c),
      (if \<not> allow_blanks p \<and> answer_of p (flds ! i) = [] then False else f))"
  using assms
  by (simp add: check_step_def Let_def array_includes_def answer_of_def flag_of_def nth_append)

lemma check_loop_result:
  assumes "length ans = i" and "i \<le> length sols" and "length sols \<le> length flds"
  shows "\<exists>flds'.
     check_loop p sols i (flds, ans, c, f) =
       Inr (flds', ans @ map (\<lambda>j. answer_of p (flds ! j)) [i..<length sols],
            c \<and> (check_answers p \<longrightarrow>
                   (\<forall>j. i \<le> j \<and> j < length sols \<longrightarrow> answer_of p (flds ! j) \<in> set (sols ! j))),
            f \<and> (\<not> allow_blanks p \<longrightarrow>
                   (\<forall>j. i \<le> j \<and> j < length sols \<longrightarrow> answer_of p (flds ! j) \<noteq> []))) \<and>
     length flds' = length flds \<and>
     (\<forall>j < length flds.
        value (flds' ! j) = value (flds ! j) \<and>
        color (flds' ! j) =
          (if check_answers p \<and> i \<le> j \<and> j < length sols
           then flag_of p (sols ! j) (flds ! j) else color (flds ! j)))"
  using assms
proof (induction "length sols - i" arbitrary: i flds ans c f)
  case 0
  then have "i = length sols" by simp
  then show ?case by (subst check_loop.simps) auto
next
  case (Suc n)
  then have lt: "i < length sols" and lf: "i < length flds" by simp_all
  define flds1 where "flds1 =
    (if check_answers p then flds[i := (flds ! i) \<lparr> color := flag_of p (sols ! i) (flds ! i) \<rparr>]
     else flds)"
  define ans1 where "ans1 = ans @ [answer_of p (flds ! i)]"
  define c1 where "c1 = (if check_answers p \<and> answer_of p (flds ! i) \<notin> set (sols ! i) then False else c)"
  define f1 where "f1 = (if \<not> allow_blanks p \<and> answer_of p (flds ! i) = [] then False else f)"
  have step: "check_step p sols i (flds, ans, c, f) = (flds1, ans1, c1, f1)"
    unfolding flds1_def ans1_def c1_def f1_def using Suc.prems(1) by (rule check_step_eq)
  have unf: "check_loop p sols i (flds, ans, c, f) = check_loop p sols (Suc i) (flds1, ans1, c1, f1)"
    using lt lf by (subst check_loop.simps) (simp add: step)
  have len1: "length flds1 = length flds" by (simp add: flds1_def)
  have val1: "value (flds1 ! j) = value (flds ! j)" if "j < length flds" for j
    using that lf by (simp add: flds1_def nth_list_update)
  have a1: "answer_of p (flds1 ! j) = answer_of p (flds ! j)" if "j < length flds" for j
    using val1[OF that] by (simp add: answer_of_def)
  have fl1: "flag_of p s (flds1 ! j) = flag_of p s (flds ! j)" if "j < length flds" for j s
    using a1[OF that] by (simp add: flag_of_def)
  have col1: "color (flds1 ! j) =
      (if check_answers p \<and> j = i then flag_of p (sols ! i) (flds ! i) else color (flds ! j))"
    if "j < length flds" for j
    using that lf by (simp add: flds1_def nth_list_update)
  have n: "n = length sols - Suc i" using Suc.hyps(2) by simp
  have p1: "length ans1 = Suc i" using Suc.prems(1) by (simp add: ans1_def)
  have p2: "Suc i \<le> length sols" using lt by simp
  have p3: "length sols \<le> length flds1" using Suc.prems(3) len1 by simp
  from Suc.hyps(1)[OF n p1 p2 p3, of c1 f1] obtain flds' where
    res: "check_loop p sols (Suc i) (flds1, ans1, c1, f1) =
       Inr (flds', ans1 @ map (\<lambda>j. answer_of p (flds1 ! j)) [Suc i..<length sols],
            c1 \<and> (check_answers p \<longrightarrow>
                   (\<forall>j. Suc i \<le> j \<and> j < length sols \<longrightarrow> answer_of p (flds1 ! j) \<in> set (sols ! j))),
            f1 \<and> (\<not> allow_blanks p \<longrightarrow>
                   (\<forall>j. Suc i \<le> j \<and> j < length sols \<longrightarrow> answer_of p (flds1 ! j) \<noteq> [])))"
    and len': "length flds' = length flds1"
    and fr: "\<forall>j < length flds1.
        value (flds' ! j) = value (flds1 ! j) \<and>
        color (flds' ! j) =
          (if check_answers p \<and> Suc i \<le> j \<and> j < length sols
           then flag_of p (sols ! j) (flds1 ! j) else color (flds1 ! j))"
    by blast
  have m: "map (\<lambda>j. answer_of p (flds1 ! j)) [Suc i..<length sols] =
           map (\<lambda>j. answer_of p (flds ! j)) [Suc i..<length sols]"
    using Suc.prems(3) by (intro map_cong refl a1) simp
  have e1: "ans1 @ map (\<lambda>j. answer_of p (flds1 ! j)) [Suc i..<length sols] =
            ans @ map (\<lambda>j. answer_of p (flds ! j)) [i..<length sols]"
    unfolding m ans1_def using lt by (simp add: upt_conv_Cons)
  have q: "(\<forall>j. Suc i \<le> j \<and> j < length sols \<longrightarrow> P (answer_of p (flds1 ! j)) j) =
           (\<forall>j. Suc i \<le> j \<and> j < length sols \<longrightarrow> P (answer_of p (flds ! j)) j)" for P
    using Suc.prems(3) a1 by auto
  have r: "(\<forall>j. i \<le> j \<and> j < length sols \<longrightarrow> Q j) =
           (Q i \<and> (\<forall>j. Suc i \<le> j \<and> j < length sols \<longrightarrow> Q j))" for Q
  proof -
    have "(i \<le> j) = (j = i \<or> Suc i \<le> j)" for j by arith
    with lt show ?thesis by auto
  qed

  have e2: "(c1 \<and> (check_answers p \<longrightarrow>
                   (\<forall>j. Suc i \<le> j \<and> j < length sols \<longrightarrow> answer_of p (flds1 ! j) \<in> set (sols ! j)))) =
            (c \<and> (check_answers p \<longrightarrow>
                   (\<forall>j. i \<le> j \<and> j < length sols \<longrightarrow> answer_of p (flds ! j) \<in> set (sols ! j))))"
    unfolding q[of "\<lambda>a j. a \<in> set (sols ! j)"] r[of "\<lambda>j. answer_of p (flds ! j) \<in> set (sols ! j)"] c1_def
    by auto
  have e3: "(f1 \<and> (\<not> allow_blanks p \<longrightarrow>
                   (\<forall>j. Suc i \<le> j \<and> j < length sols \<longrightarrow> answer_of p (flds1 ! j) \<noteq> []))) =
            (f \<and> (\<not> allow_blanks p \<longrightarrow>
                   (\<forall>j. i \<le> j \<and> j < length sols \<longrightarrow> answer_of p (flds ! j) \<noteq> [])))"
    unfolding q[of "\<lambda>a j. a \<noteq> []"] r[of "\<lambda>j. answer_of p (flds ! j) \<noteq> []"] f1_def
    by auto
  have fr': "value (flds' ! j) = value (flds ! j) \<and>
        color (flds' ! j) =
          (if check_answers p \<and> i \<le> j \<and> j < length sols
           then flag_of p (sols ! j) (flds ! j) else color (flds ! j))"
    if j: "j < length flds" for j
  proof -
    from j len1 fr have
      "value (flds' ! j) = value (flds1 ! j)" and
      "color (flds' ! j) =
          (if check_answers p \<and> Suc i \<le> j \<and> j < length sols
           then flag_of p (sols ! j) (flds1 ! j) else color (flds1 ! j))"
      by simp_all
    with val1[OF j] fl1[OF j] col1[OF j] lt show ?thesis
      by (cases "j = i") auto
  qed
  show ?case
    unfolding unf res e1 e2 e3 using len' len1 fr' by simp
qed

lemma check_step_unchecked:
  "\<not> check_answers p \<Longrightarrow> fst (check_step p sols i st) = fst st"
  by (cases st) (simp add: check_step_def Let_def)

lemma check_loop_unchecked:
  "\<not> check_answers p \<Longrightarrow> check_loop p sols i st = Inr st' \<Longrightarrow> fst st' = fst st"
proof (induction p sols i st rule: check_loop.induct)
  case (1 p sols i st)
  show ?case
  proof (cases "i < length sols")
    case True
    note lt = this
    show ?thesis
    proof (cases "i < length (fst st)")
      case True
      with lt "1.prems"(2) have "check_loop p sols (i + 1) (check_step p sols i st) = Inr st'"
        by (subst (asm) check_loop.simps) simp
      from "1.IH"[OF lt True "1.prems"(1) this] "1.prems"(1) show ?thesis
        by (simp add: check_step_unchecked)
    next
      case False
      with lt "1.prems"(2) show ?thesis by (subst (asm) check_loop.simps) simp
    qed
  next
    case False
    with "1.prems"(2) show ?thesis by (subst (asm) check_loop.simps) simp
  qed
qed

lemma check_result:
  assumes len: "length (inputs d) = length (getSolutions (text p) (case_sensitivity p))"
  shows "\<exists>flds'.
     check p d =
       Inr (d \<lparr> inputs := flds' \<rparr>,
            if (check_answers p \<and>
                  (\<exists>j < length (inputs d). answer_of p (inputs d ! j) \<notin>
                     set (getSolutions (text p) (case_sensitivity p) ! j))) \<or>
               (\<not> allow_blanks p \<and> (\<exists>j < length (inputs d). answer_of p (inputs d ! j) = ''''))
            then MistakeFn
            else FinishTrial \<lparr> response = map (answer_of p) (inputs d) \<rparr>) \<and>
     length flds' = length (inputs d) \<and>
     (\<not> check_answers p \<longrightarrow> flds' = inputs d) \<and>
     (\<forall>j < length (inputs d).
        value (flds' ! j) = value (inputs d ! j) \<and>
        color (flds' ! j) =
          (if check_answers p
           then flag_of p (getSolutions (text p) (case_sensitivity p) ! j) (inputs d ! j)
           else color (inputs d ! j)))"
proof -
  let ?sols = "getSolutions (text p) (case_sensitivity p)"
  let ?flds = "inputs d"
  from check_loop_result[of "[]" 0 ?sols ?flds p True True] len
  obtain flds' where
    res: "check_loop p ?sols 0 (?flds, [], True, True) =
       Inr (flds', [] @ map (\<lambda>j. answer_of p (?flds ! j)) [0..<length ?sols],
            True \<and> (check_answers p \<longrightarrow>
                   (\<forall>j. 0 \<le> j \<and> j < length ?sols \<longrightarrow> answer_of p (?flds ! j) \<in> set (?sols ! j))),
            True \<and> (\<not> allow_blanks p \<longrightarrow>
                   (\<forall>j. 0 \<le> j \<and> j < length ?sols \<longrightarrow> answer_of p (?flds ! j) \<noteq> [])))"
    and len': "length flds' = length ?flds"
    and fr: "\<forall>j < length ?flds.
        value (flds' ! j) = value (?flds ! j) \<and>
        color (flds' ! j) =
          (if check_answers p \<and> 0 \<le> j \<and> j < length ?sols
           then flag_of p (?sols ! j) (?flds ! j) else color (?flds ! j))"
    by auto
  have m: "map (\<lambda>j. answer_of p (?flds ! j)) [0..<length ?sols] = map (answer_of p) ?flds"
    unfolding len[symmetric] by (rule nth_equalityI) simp_all
  have un: "\<not> check_answers p \<longrightarrow> flds' = ?flds"
    using check_loop_unchecked[OF _ res] by auto
  have "check p d =
       Inr (d \<lparr> inputs := flds' \<rparr>,
            if (check_answers p \<and>
                  (\<exists>j < length (inputs d). answer_of p (inputs d ! j) \<notin> set (?sols ! j))) \<or>
               (\<not> allow_blanks p \<and> (\<exists>j < length (inputs d). answer_of p (inputs d ! j) = ''''))
            then MistakeFn
            else FinishTrial \<lparr> response = map (answer_of p) (inputs d) \<rparr>)"
    unfolding check_def res m using len by auto
  with len' un fr len show ?thesis by auto
qed

subsection \<open>The simulation loop\<close>

lemma floor_index:
  assumes "0 \<le> r" and "r < 1" and "0 < n"
  shows "0 \<le> \<lfloor>r * real n\<rfloor> \<and> \<lfloor>r * real n\<rfloor> < int n"
proof
  from assms show "0 \<le> \<lfloor>r * real n\<rfloor>" by simp
  from assms have "r * real n < real n" by simp
  then show "\<lfloor>r * real n\<rfloor> < int n" by (simp add: floor_less_iff)
qed

lemma calls_of_append [simp]:
  "calls_of c (calls @ [x]) = (if x = c then Suc (calls_of c calls) else calls_of c calls)"
  by (simp add: calls_of_def)

lemma draws_before_0 [simp]: "draws_before c sols 0 = 0"
  by (simp add: draws_before_def)

lemma draws_before_Suc [simp]:
  "draws_before c (wl # sols) (Suc i) =
     (if service_of wl = c then Suc (draws_before c sols i) else draws_before c sols i)"
  by (simp add: draws_before_def service_of_def)

lemma simulated_answer_Suc:
  "simulated_answer h nw nr (wl # sols) (Suc i) =
     simulated_answer h (if service_of wl = RandomWordsCall then Suc nw else nw)
       (if service_of wl = MathRandomCall then Suc nr else nr) sols i"
  by (simp add: simulated_answer_def)

lemma map_upt_Cons: "map f [0..<Suc n] = f 0 # map (\<lambda>i. f (Suc i)) [0..<n]"
  by (simp add: upt_conv_Cons map_Suc_upt[symmetric] del: upt_Suc)

lemma simulation_loop_eq:
  assumes "\<forall>k. 0 \<le> Math_random h k \<and> Math_random h k < 1"
    and "\<forall>wl \<in> set sols. wl \<noteq> []"
  shows "simulation_loop h sols rs calls =
     Inr (rs @ map (simulated_answer h (calls_of RandomWordsCall calls)
                      (calls_of MathRandomCall calls) sols) [0..<length sols],
          calls @ map service_of sols)"
  using assms(2)
proof (induction sols arbitrary: rs calls)
  case Nil
  show ?case by simp
next
  case (Cons wl sols)
  then have ne: "0 < length wl" and rest: "\<forall>wl \<in> set sols. wl \<noteq> []" by simp_all
  note ih = Cons.IH[OF rest]
  show ?case
  proof (cases "array_includes wl ''''")
    case True
    then have s: "service_of wl = RandomWordsCall" by (simp add: service_of_def)
    have a0: "simulated_answer h (calls_of RandomWordsCall calls) (calls_of MathRandomCall calls)
                (wl # sols) 0 = randomWords h (calls_of RandomWordsCall calls)"
      using True by (simp add: simulated_answer_def)
    show ?thesis
      using True by (simp add: ih map_upt_Cons simulated_answer_Suc s a0 del: upt_Suc)
  next
    case False
    then have s: "service_of wl = MathRandomCall" by (simp add: service_of_def)
    let ?k = "\<lfloor>Math_random h (calls_of MathRandomCall calls) * real (length wl)\<rfloor>"
    from floor_index[of "Math_random h (calls_of MathRandomCall calls)" "length wl"] assms(1) ne
    have k: "0 \<le> ?k \<and> ?k < int (length wl)" by simp
    have a0: "simulated_answer h (calls_of RandomWordsCall calls) (calls_of MathRandomCall calls)
                (wl # sols) 0 = wl ! nat ?k"
      using False by (simp add: simulated_answer_def)
    show ?thesis
      using False k by (simp add: ih map_upt_Cons simulated_answer_Suc s a0 Let_def del: upt_Suc)
  qed
qed

subsection \<open>The loop scheduling the fills\<close>

lemma sum_greaterThanAtMost_Suc:
  fixes s :: "nat \<Rightarrow> real"
  assumes "i < j"
  shows "sum s {i<..j} = s (Suc i) + sum s {Suc i<..j}"
proof -
  from assms have "{i<..j} = insert (Suc i) {Suc i<..j}" by auto
  then show ?thesis by simp
qed

lemma fill_loop_eq:
  "i \<le> length resp \<Longrightarrow>
   fill_loop h n resp i rt evs =
     (evs @ map (\<lambda>j. FillTextInput (if j < n then Some j else None) (resp ! j)
                        (rt + sum (sampleExGaussian h) {i<..j})) [i..<length resp],
      rt + sum (sampleExGaussian h) {i<..length resp})"
proof (induction h n resp i rt evs rule: fill_loop.induct)
  case (1 h n resp i rt evs)
  show ?case
  proof (cases "i < length resp")
    case True
    then have le: "i + 1 \<le> length resp" by simp
    note ih = "1.IH"[OF True le]
    have m: "map (\<lambda>j. FillTextInput (if j < n then Some j else None) (resp ! j)
                 (rt + sampleExGaussian h (i + 1) + sum (sampleExGaussian h) {i + 1<..j}))
               [i + 1..<length resp] =
             map (\<lambda>j. FillTextInput (if j < n then Some j else None) (resp ! j)
                 (rt + sum (sampleExGaussian h) {i<..j})) [i + 1..<length resp]"
      by (rule map_cong) (simp_all add: sum_greaterThanAtMost_Suc)
    have t: "rt + sampleExGaussian h (i + 1) + sum (sampleExGaussian h) {i + 1<..length resp} =
             rt + sum (sampleExGaussian h) {i<..length resp}"
      using True by (simp add: sum_greaterThanAtMost_Suc)
    have "fill_loop h n resp i rt evs =
          fill_loop h n resp (i + 1) (rt + sampleExGaussian h (i + 1))
            (evs @ [FillTextInput (if i < n then Some i else None) (resp ! i) rt])"
      using True by (subst fill_loop.simps) simp
    also note ih
    finally show ?thesis
      unfolding m t using True by (simp add: upt_conv_Cons)
  next
    case False
    with "1.prems" have "i = length resp" by simp
    then show ?thesis by (subst fill_loop.simps) simp
  qed
qed

lemma sum_atMost_split:
  fixes s :: "nat \<Rightarrow> real"
  shows "s 0 + sum s {0<..j} = sum s {..j}"
proof -
  have "{..j} = insert 0 {0<..j}" by auto
  then show ?thesis by simp
qed

lemma sum_atMost_strict_mono:
  fixes s :: "nat \<Rightarrow> real"
  assumes "\<forall>k. 0 < s k" and "i < j"
  shows "sum s {..i} < sum s {..j}"
proof -
  from assms(2) have "{..j} = {..i} \<union> {i<..j}" by auto
  moreover have "{..i} \<inter> {i<..j} = {}" by auto
  ultimately have "sum s {..j} = sum s {..i} + sum s {i<..j}"
    by (simp add: sum.union_disjoint)
  moreover have "0 < sum s {i<..j}"
    using assms by (intro sum_pos) auto
  ultimately show ?thesis by simp
qed

lemma sum_atMost_pos:
  fixes s :: "nat \<Rightarrow> real"
  assumes "\<forall>k. 0 < s k"
  shows "0 < sum s {..j}"
  using assms by (intro sum_pos) auto

section \<open>The parser\<close>

text \<open>
  C4: for a text with an even number \<open>k\<close> of \<open>%\<close> markers and either value of the
  case-sensitivity flag, \<open>getSolutions\<close> returns exactly \<open>k / 2\<close> lists; the list
  number \<open>j\<close> is the one derived from the element at index \<open>2 j + 1\<close> of the split
  text (the blanks from left to right), and it has at least one element.
\<close>

theorem getSolutions_even_markers:
  assumes "even (count_list t (CHR ''%''))"
  shows "length (getSolutions t cs) = count_list t (CHR ''%'') div 2 \<and>
         (\<forall>j < count_list t (CHR ''%'') div 2.
            getSolutions t cs ! j = solution_of cs (split (CHR ''%'') t ! (2 * j + 1)) \<and>
            getSolutions t cs ! j \<noteq> [])"
proof -
  from assms have len: "length (getSolutions t cs) = count_list t (CHR ''%'') div 2"
    by (simp add: length_getSolutions)
  show ?thesis
  proof (intro conjI allI impI)
    show "length (getSolutions t cs) = count_list t (CHR ''%'') div 2" by (rule len)
  next
    fix j assume "j < count_list t (CHR ''%'') div 2"
    with len have j: "j < length (getSolutions t cs)" by simp
    then show eq: "getSolutions t cs ! j = solution_of cs (split (CHR ''%'') t ! (2 * j + 1))"
      by (rule nth_getSolutions)
    show "getSolutions t cs ! j \<noteq> []"
      unfolding eq by (rule solution_of_not_Nil)
  qed
qed

theorem getSolutions_even_markers_witness:
  "even (count_list ''a %Cloze/B% c %%'' (CHR ''%'')) \<and>
   length (getSolutions ''a %Cloze/B% c %%'' False) = 2 \<and>
   getSolutions ''a %Cloze/B% c %%'' False ! 0 = [''cloze'', ''b''] \<and>
   getSolutions ''a %Cloze/B% c %%'' False ! 1 = ['''']"
proof -
  have h: "even (count_list ''a %Cloze/B% c %%'' (CHR ''%''))" by simp
  have s0: "solution_of False ''Cloze/B'' = [''cloze'', ''b'']"
    by (simp add: solution_of_def trim_def is_whitespace_def toLowerCase_def lower_char_def
        char_of_eq_iff)
  have s1: "solution_of False '''' = ['''']"
    by (simp add: solution_of_def trim_def toLowerCase_def)
  from getSolutions_even_markers [OF h, of False] h s0 s1 show ?thesis by simp
qed



text \<open>
  C9: for a text with an odd number \<open>n\<close> of \<open>%\<close> markers, the markup that \<open>trial\<close> writes
  holds \<open>(n + 1) / 2\<close> text inputs, numbered from 0, and its last node is the last of these
  inputs: the text after the last marker is written as an input, not as a literal.
  \<open>getSolutions\<close> returns \<open>(n + 1) / 2\<close> lists, the last one derived from the text after
  the last marker. When the text and the label of the button hold no markup, the trial
  renders and its surface has these \<open>(n + 1) / 2\<close> inputs.
\<close>

theorem odd_markers_trailing_blank:
  assumes "odd (count_list (text p) (CHR ''%''))"
  shows "input_ids (fst (render_loop (split (CHR ''%'') (text p)) 0 [] 0)) =
           [0..<(count_list (text p) (CHR ''%'') + 1) div 2] \<and>
         last (fst (render_loop (split (CHR ''%'') (text p)) 0 [] 0)) =
           TextInput ((count_list (text p) (CHR ''%'') + 1) div 2 - 1) \<and>
         length (getSolutions (text p) cs) = (count_list (text p) (CHR ''%'') + 1) div 2 \<and>
         last (getSolutions (text p) cs) = solution_of cs (last (split (CHR ''%'') (text p))) \<and>
         (plain_text (text p) \<and> plain_text (button_text p) \<longrightarrow>
            (\<exists>d. trial p = Inr d \<and>
                 innerHTML d = fst (render_loop (split (CHR ''%'') (text p)) 0 [] 0) \<and>
                 length (inputs d) = (count_list (text p) (CHR ''%'') + 1) div 2))"
proof -
  let ?n = "count_list (text p) (CHR ''%'')"
  let ?es = "split (CHR ''%'') (text p)"
  from assms have n0: "?n \<noteq> 0" by (auto intro: ccontr)
  have len: "length ?es = Suc ?n" by (rule length_split)
  have r: "fst (render_loop ?es 0 [] 0) = map (node_at ?es) [0..<Suc ?n]"
    using render_loop_eq[of 0 0 ?es "[]"] len by simp
  have pos: "0 < (?n + 1) div 2" using assms n0 by presburger
  have idx: "2 * ((?n + 1) div 2 - 1) + 1 = ?n" using assms n0 by presburger
  have lastn: "last (map (node_at ?es) [0..<Suc ?n]) = node_at ?es ?n"
    by simp
  have node: "node_at ?es ?n = TextInput ((?n + 1) div 2 - 1)"
    using assms n0 unfolding node_at_def by (simp add: odd_iff_mod_2_eq_one)
  have ids: "input_ids (map (node_at ?es) [0..<Suc ?n]) = [0..<(?n + 1) div 2]"
    using input_ids_nodes[of ?es "Suc ?n"] by simp
  have sols: "length (getSolutions (text p) cs) = (?n + 1) div 2"
    by (simp add: length_getSolutions)
  from pos sols have ne: "getSolutions (text p) cs \<noteq> []" by auto
  have "last (getSolutions (text p) cs) =
          getSolutions (text p) cs ! ((?n + 1) div 2 - 1)"
    using ne sols by (simp add: last_conv_nth)
  also have "\<dots> = solution_of cs (?es ! (2 * ((?n + 1) div 2 - 1) + 1))"
    using pos sols by (intro nth_getSolutions) simp
  also have "\<dots> = solution_of cs (last ?es)"
    unfolding idx using len by (simp add: last_conv_nth split_not_Nil)
  finally have lastsol: "last (getSolutions (text p) cs) = solution_of cs (last ?es)" .
  have t: "\<exists>d. trial p = Inr d \<and> innerHTML d = map (node_at ?es) [0..<Suc ?n] \<and>
             length (inputs d) = (?n + 1) div 2"
    unfolding trial_eq using n0 by (simp del: upt_Suc)
  show ?thesis
    unfolding r using lastn node ids sols lastsol t
    by (simp del: upt_Suc)
qed

text \<open>An instance: the text \<open>a %b% c % d\<close> with its three markers.\<close>

theorem odd_markers_trailing_blank_witness:
  "odd (count_list ''a %b% c % d '' (CHR ''%'')) \<and>
   plain_text ''a %b% c % d '' \<and> plain_text (button_text (default_params ''a %b% c % d '')) \<and>
   fst (render_loop (split (CHR ''%'') ''a %b% c % d '') 0 [] 0) =
     [Literal ''a '', TextInput 0, Literal '' c '', TextInput 1] \<and>
   getSolutions ''a %b% c % d '' True = [[''b''], [''d'']] \<and>
   (\<exists>d. trial (default_params ''a %b% c % d '') = Inr d \<and> length (inputs d) = 2)"
proof -
  let ?p = "default_params ''a %b% c % d ''"
  have h: "odd (count_list (text ?p) (CHR ''%''))"
    by (simp add: default_params_def)
  have pl: "plain_text (text ?p)"
    by (simp add: plain_text_def default_params_def)
  have t: "text ?p = ''a %b% c % d ''" by (simp add: default_params_def)
  have g: "getSolutions ''a %b% c % d '' True = [[''b''], [''d'']]"
    by (simp add: getSolutions_eq solution_of_def trim_def is_whitespace_def)
  have m: "fst (render_loop (split (CHR ''%'') ''a %b% c % d '') 0 [] 0) =
     [Literal ''a '', TextInput 0, Literal '' c '', TextInput 1]"
    by (simp add: render_loop.simps)
  have pb: "plain_text (button_text ?p)"
    by (simp add: plain_text_def default_params_def)
  from odd_markers_trailing_blank [OF h, of True] pl pb have
    "\<exists>d. trial ?p = Inr d \<and> length (inputs d) = 2"
    unfolding t by auto
  with h pl pb g m show ?thesis unfolding t by simp
qed

section \<open>The outcome of a submit\<close>

text \<open>
  C1: on a surface that has one input per parsed blank, one call of \<open>check\<close> returns
  without error, and it calls the mistake callback (and does not finish the trial) if and
  only if the answers are checked and the answer of some field (its value trimmed, and
  lower-cased when case sensitivity is off) is not among the accepted alternatives of its
  blank, or blanks are not allowed and the answer of some field is empty. In every other
  case it finishes the trial with the list of the answers as \<open>response\<close>.
\<close>

theorem submit_outcome:
  assumes "length (inputs d) = length (getSolutions (text p) (case_sensitivity p))"
  shows "\<exists>d' out.
     check p d = Inr (d', out) \<and>
     (out = MistakeFn \<longleftrightarrow>
        (check_answers p \<and>
           (\<exists>j < length (inputs d). answer_of p (inputs d ! j) \<notin>
              set (getSolutions (text p) (case_sensitivity p) ! j))) \<or>
        (\<not> allow_blanks p \<and> (\<exists>j < length (inputs d). answer_of p (inputs d ! j) = ''''))) \<and>
     (out = MistakeFn \<or> out = FinishTrial \<lparr> response = map (answer_of p) (inputs d) \<rparr>)"
proof -
  from check_result[OF assms] obtain flds' where
    "check p d =
       Inr (d \<lparr> inputs := flds' \<rparr>,
            if (check_answers p \<and>
                  (\<exists>j < length (inputs d). answer_of p (inputs d ! j) \<notin>
                     set (getSolutions (text p) (case_sensitivity p) ! j))) \<or>
               (\<not> allow_blanks p \<and> (\<exists>j < length (inputs d). answer_of p (inputs d ! j) = ''''))
            then MistakeFn
            else FinishTrial \<lparr> response = map (answer_of p) (inputs d) \<rparr>)"
    by blast
  then show ?thesis by auto
qed

text \<open>
  Two instances on the text \<open>a %b% c\<close> with the answers checked: the value \<open>x\<close> is not
  the solution and the mistake callback is called; the value \<open>b\<close> finishes the trial.
\<close>

theorem submit_outcome_witness:
  "length (inputs \<lparr> innerHTML = [Literal ''a '', TextInput 0, Literal '' c''], button = ''OK'',
                     inputs = [\<lparr> value = '' x'', color = '''' \<rparr>], focused = Some 0 \<rparr>) =
     length (getSolutions (text ((default_params ''a %b% c'') \<lparr> check_answers := True \<rparr>))
               (case_sensitivity ((default_params ''a %b% c'') \<lparr> check_answers := True \<rparr>))) \<and>
   (\<exists>d'. check ((default_params ''a %b% c'') \<lparr> check_answers := True \<rparr>)
           \<lparr> innerHTML = [Literal ''a '', TextInput 0, Literal '' c''], button = ''OK'',
             inputs = [\<lparr> value = '' x'', color = '''' \<rparr>], focused = Some 0 \<rparr> =
         Inr (d', MistakeFn)) \<and>
   (\<exists>d'. check ((default_params ''a %b% c'') \<lparr> check_answers := True \<rparr>)
           \<lparr> innerHTML = [Literal ''a '', TextInput 0, Literal '' c''], button = ''OK'',
             inputs = [\<lparr> value = '' b '', color = '''' \<rparr>], focused = Some 0 \<rparr> =
         Inr (d', FinishTrial \<lparr> response = [''b''] \<rparr>))"
proof -
  let ?p = "(default_params ''a %b% c'') \<lparr> check_answers := True \<rparr>"
  let ?d = "\<lparr> innerHTML = [Literal ''a '', TextInput 0, Literal '' c''], button = ''OK'',
             inputs = [\<lparr> value = '' x'', color = '''' \<rparr>], focused = Some 0 \<rparr>"
  let ?e = "\<lparr> innerHTML = [Literal ''a '', TextInput 0, Literal '' c''], button = ''OK'',
             inputs = [\<lparr> value = '' b '', color = '''' \<rparr>], focused = Some 0 \<rparr>"
  have s: "getSolutions (text ?p) (case_sensitivity ?p) = [[''b'']]"
    by (simp add: getSolutions_eq solution_of_def trim_def is_whitespace_def default_params_def)
  have h: "length (inputs ?d) = length (getSolutions (text ?p) (case_sensitivity ?p))"
    unfolding s by simp
  have h': "length (inputs ?e) = length (getSolutions (text ?p) (case_sensitivity ?p))"
    unfolding s by simp
  have a: "answer_of ?p \<lparr> value = '' x'', color = '''' \<rparr> = ''x''"
    by (simp add: answer_of_def trim_def is_whitespace_def default_params_def)
  have b: "answer_of ?p \<lparr> value = '' b '', color = '''' \<rparr> = ''b''"
    by (simp add: answer_of_def trim_def is_whitespace_def default_params_def)
  have ab: "allow_blanks ?p" by (simp add: default_params_def)
  from submit_outcome[OF h] have
    "\<exists>d'. check ?p ?d = Inr (d', MistakeFn)"
    unfolding s by (auto simp: a)
  moreover from submit_outcome[OF h'] have
    "\<exists>d'. check ?p ?e = Inr (d', FinishTrial \<lparr> response = [''b''] \<rparr>)"
    unfolding s by (auto simp: b ab)
  ultimately show ?thesis using h by blast
qed

section \<open>The colours written by a submit\<close>

text \<open>
  C10: \<open>check\<close> writes the colour of a field only when the answers are checked: then
  every field becomes \<open>black\<close> when its answer is accepted and \<open>red\<close> otherwise; the
  values of the fields are never changed. When
  the answers are not checked the surface is returned unchanged, so an empty answer with
  blanks disallowed calls the mistake callback and flags no field.
\<close>

theorem submit_flags_only_when_checking:
  assumes "length (inputs d) = length (getSolutions (text p) (case_sensitivity p))"
  shows "\<exists>d' out.
     check p d = Inr (d', out) \<and>
     (\<not> check_answers p \<longrightarrow> d' = d) \<and>
     (check_answers p \<longrightarrow>
        (\<forall>j < length (inputs d).
           color (inputs d' ! j) =
             (if answer_of p (inputs d ! j) \<in> set (getSolutions (text p) (case_sensitivity p) ! j)
              then ''black'' else ''red''))) \<and>
     (\<forall>j < length (inputs d). value (inputs d' ! j) = value (inputs d ! j)) \<and>
     (\<not> check_answers p \<and> \<not> allow_blanks p \<and>
        (\<exists>j < length (inputs d). answer_of p (inputs d ! j) = '''') \<longrightarrow> out = MistakeFn)"
proof -
  from check_result[OF assms] obtain flds' where
    c: "check p d =
       Inr (d \<lparr> inputs := flds' \<rparr>,
            if (check_answers p \<and>
                  (\<exists>j < length (inputs d). answer_of p (inputs d ! j) \<notin>
                     set (getSolutions (text p) (case_sensitivity p) ! j))) \<or>
               (\<not> allow_blanks p \<and> (\<exists>j < length (inputs d). answer_of p (inputs d ! j) = ''''))
            then MistakeFn
            else FinishTrial \<lparr> response = map (answer_of p) (inputs d) \<rparr>)"
    and un: "\<not> check_answers p \<longrightarrow> flds' = inputs d"
    and fr: "\<forall>j < length (inputs d).
        value (flds' ! j) = value (inputs d ! j) \<and>
        color (flds' ! j) =
          (if check_answers p
           then flag_of p (getSolutions (text p) (case_sensitivity p) ! j) (inputs d ! j)
           else color (inputs d ! j))"
    by blast
  from un have "\<not> check_answers p \<longrightarrow> d \<lparr> inputs := flds' \<rparr> = d" by simp
  with c fr show ?thesis by (auto simp: flag_of_def)
qed

text \<open>
  Two instances on the text \<open>a %b% c\<close> with a blank field: with blanks disallowed and
  nothing checked the surface is unchanged and the mistake callback is called; with the
  answers checked the field becomes \<open>red\<close>.
\<close>

theorem submit_flags_only_when_checking_witness:
  "length (inputs \<lparr> innerHTML = [Literal ''a '', TextInput 0, Literal '' c''], button = ''OK'',
                     inputs = [\<lparr> value = ''  '', color = '''' \<rparr>], focused = Some 0 \<rparr>) =
     length (getSolutions (text ((default_params ''a %b% c'') \<lparr> allow_blanks := False \<rparr>))
               (case_sensitivity ((default_params ''a %b% c'') \<lparr> allow_blanks := False \<rparr>))) \<and>
   check ((default_params ''a %b% c'') \<lparr> allow_blanks := False \<rparr>)
     \<lparr> innerHTML = [Literal ''a '', TextInput 0, Literal '' c''], button = ''OK'',
       inputs = [\<lparr> value = ''  '', color = '''' \<rparr>], focused = Some 0 \<rparr> =
     Inr (\<lparr> innerHTML = [Literal ''a '', TextInput 0, Literal '' c''], button = ''OK'',
            inputs = [\<lparr> value = ''  '', color = '''' \<rparr>], focused = Some 0 \<rparr>, MistakeFn) \<and>
   (\<exists>d' out.
      check ((default_params ''a %b% c'') \<lparr> check_answers := True \<rparr>)
        \<lparr> innerHTML = [Literal ''a '', TextInput 0, Literal '' c''], button = ''OK'',
          inputs = [\<lparr> value = ''  '', color = '''' \<rparr>], focused = Some 0 \<rparr> = Inr (d', out) \<and>
      color (inputs d' ! 0) = ''red'' \<and> value (inputs d' ! 0) = ''  '')"
proof -
  let ?p = "(default_params ''a %b% c'') \<lparr> allow_blanks := False \<rparr>"
  let ?q = "(default_params ''a %b% c'') \<lparr> check_answers := True \<rparr>"
  let ?d = "\<lparr> innerHTML = [Literal ''a '', TextInput 0, Literal '' c''], button = ''OK'',
             inputs = [\<lparr> value = ''  '', color = '''' \<rparr>], focused = Some 0 \<rparr>"
  have h: "length (inputs ?d) = length (getSolutions (text ?p) (case_sensitivity ?p))"
    by (simp add: length_getSolutions default_params_def)
  have s: "getSolutions (text ?q) (case_sensitivity ?q) = [[''b'']]"
    by (simp add: getSolutions_eq solution_of_def trim_def is_whitespace_def default_params_def)
  have h': "length (inputs ?d) = length (getSolutions (text ?q) (case_sensitivity ?q))"
    unfolding s by simp
  have a: "answer_of ?p \<lparr> value = ''  '', color = '''' \<rparr> = ''''"
    by (simp add: answer_of_def trim_def is_whitespace_def default_params_def)
  have a': "answer_of ?q \<lparr> value = ''  '', color = '''' \<rparr> = ''''"
    by (simp add: answer_of_def trim_def is_whitespace_def default_params_def)
  have n: "\<not> check_answers ?p" "\<not> allow_blanks ?p" "check_answers ?q"
    by (simp_all add: default_params_def)
  from submit_flags_only_when_checking[OF h] n have
    "check ?p ?d = Inr (?d, MistakeFn)"
    by (auto simp: a)
  moreover from submit_flags_only_when_checking[OF h'] n have
    "\<exists>d' out. check ?q ?d = Inr (d', out) \<and>
       color (inputs d' ! 0) = ''red'' \<and> value (inputs d' ! 0) = ''  ''"
    unfolding s by (auto simp: a')
  ultimately show ?thesis using h by blast
qed

section \<open>Case-insensitive matching\<close>

lemma of_char_upper_char:
  "(of_char (upper_char c) :: nat) =
     (if 97 \<le> (of_char c :: nat) \<and> (of_char c :: nat) \<le> 122 then of_char c - 32 else of_char c)"
  by (auto simp: upper_char_def Let_def)

lemma lower_upper_char [simp]: "lower_char (upper_char c) = lower_char c"
proof -
  have "(of_char (lower_char (upper_char c)) :: nat) = of_char (lower_char c)"
    by (auto simp: of_char_lower_char of_char_upper_char)
  then show ?thesis by simp
qed

lemma case_variant_toLowerCase:
  "case_variant x a \<Longrightarrow> toLowerCase x = toLowerCase a"
  unfolding case_variant_def toLowerCase_def
  by (induction x a rule: list_all2_induct) auto

lemma split_pieces_subset: "piece \<in> set (split sep s) \<Longrightarrow> set piece \<subseteq> set s"
proof (induction s arbitrary: piece)
  case Nil
  then show ?case by simp
next
  case (Cons c cs)
  have hd_in: "hd (split sep cs) \<in> set (split sep cs)"
    by (simp add: split_not_Nil)
  have tl_in: "set (tl (split sep cs)) \<subseteq> set (split sep cs)"
    by (simp add: list.set_sel(2) split_not_Nil subsetI)
  show ?case
  proof (cases "c = sep")
    case True
    with Cons.prems have "piece = [] \<or> piece \<in> set (split sep cs)" by simp
    with Cons.IH show ?thesis by auto
  next
    case False
    with Cons.prems have "piece = c # hd (split sep cs) \<or> piece \<in> set (tl (split sep cs))"
      by simp
    with Cons.IH[OF hd_in] Cons.IH tl_in show ?thesis by auto
  qed
qed

lemma set_trim_subset: "set (trim s) \<subseteq> set s"
proof -
  have "set (trim s) \<subseteq> set (rev (dropWhile is_whitespace s))"
    unfolding trim_def by (auto dest: set_dropWhileD)
  also have "\<dots> \<subseteq> set s" by (auto dest: set_dropWhileD)
  finally show ?thesis .
qed

lemma solution_of_lower:
  assumes "a \<in> set (solution_of False e)"
  shows "toLowerCase a = a"
proof -
  from assms have "set a \<subseteq> set (trim (toLowerCase e))"
    by (auto simp: solution_of_def dest: split_pieces_subset)
  with set_trim_subset have "set a \<subseteq> set (toLowerCase e)" by blast
  then have "\<forall>c \<in> set a. lower_char c = c"
    by (auto simp: toLowerCase_def)
  then show ?thesis
    unfolding toLowerCase_def by (simp add: map_idI)
qed

lemma of_char_lower_char_ascii:
  "(of_char c :: nat) < 128 \<Longrightarrow> (of_char (lower_char c) :: nat) < 128"
  by (auto simp: of_char_lower_char)

lemma of_char_upper_char_ascii:
  "(of_char c :: nat) < 128 \<Longrightarrow> (of_char (upper_char c) :: nat) < 128"
  by (auto simp: of_char_upper_char)

lemma case_variant_ascii:
  "ascii_string a \<Longrightarrow> case_variant x a \<Longrightarrow> ascii_string x"
proof -
  assume a: "ascii_string a" and v: "case_variant x a"
  from v have "list_all2 (\<lambda>c d. c = d \<or> c = upper_char d \<or> c = lower_char d) x a"
    by (simp add: case_variant_def)
  then have "list_all (\<lambda>d. (of_char d :: nat) < 128) a \<longrightarrow>
             list_all (\<lambda>c. (of_char c :: nat) < 128) x"
    by (induction x a rule: list_all2_induct)
       (auto simp: of_char_lower_char_ascii of_char_upper_char_ascii)
  with a show ?thesis by (simp add: ascii_string_def)
qed

text \<open>
  C5, as amended: with case sensitivity off and the answers checked, for every accepted
  alternative \<open>a\<close> of a blank that consists of ASCII characters and has no white space at
  its ends (\<open>trim a = a\<close>), and every string obtained from \<open>a\<close> by changing the case of
  letters \<open>A\<close>..\<open>Z\<close>, \<open>a\<close>..\<open>z\<close>, a submit with that string in the field of the blank
  marks the field as passing (\<open>black\<close>). On ASCII strings \<open>trim\<close>, \<open>toLowerCase\<close> and the
  change of case are those of JavaScript, so the hypotheses say of the code what they say
  of the model.
\<close>

theorem case_insensitive_match:
  assumes "\<not> case_sensitivity p" and "check_answers p"
    and "length (inputs d) = length (getSolutions (text p) (case_sensitivity p))"
    and "i < length (inputs d)"
    and "a \<in> set (getSolutions (text p) (case_sensitivity p) ! i)"
    and "ascii_string a"
    and "trim a = a"
    and "case_variant x a"
    and "value (inputs d ! i) = x"
  shows "\<exists>d' out. check p d = Inr (d', out) \<and> color (inputs d' ! i) = ''black'' \<and>
           ascii_string x"
proof -
  let ?sols = "getSolutions (text p) (case_sensitivity p)"
  from assms(3,4) have i: "i < length ?sols" by simp
  from assms(1,5) nth_getSolutions[OF i] have "toLowerCase a = a"
    by (auto dest: solution_of_lower)
  with case_variant_toLowerCase[OF assms(8)] have "toLowerCase x = a" by simp
  with assms(1,7,9) have "answer_of p (inputs d ! i) = a"
    by (simp add: answer_of_def)
  with assms(5) have f: "flag_of p (?sols ! i) (inputs d ! i) = ''black''"
    by (simp add: flag_of_def)
  from assms(6,8) have "ascii_string x" by (rule case_variant_ascii)
  with check_result[OF assms(3)] assms(2,4) f show ?thesis by auto
qed

lemma eq_char_of_iff: "c = char_of (n::nat) \<longleftrightarrow> take_bit 8 n = of_char c"
  using char_of_eq_iff[of n c] by auto

text \<open>An instance: the text \<open>%Cloze%\<close> and the value \<open>CLOZE\<close>.\<close>

theorem case_insensitive_match_witness:
  "\<not> case_sensitivity ((default_params ''%Cloze%'') \<lparr> check_answers := True, case_sensitivity := False \<rparr>) \<and>
   ''cloze'' \<in> set (getSolutions ''%Cloze%'' False ! 0) \<and> ascii_string ''cloze'' \<and>
   trim ''cloze'' = ''cloze'' \<and> case_variant ''CLOZE'' ''cloze'' \<and>
   (\<exists>d' out.
      check ((default_params ''%Cloze%'') \<lparr> check_answers := True, case_sensitivity := False \<rparr>)
        \<lparr> innerHTML = [Literal '''', TextInput 0, Literal ''''], button = ''OK'',
          inputs = [\<lparr> value = ''CLOZE'', color = '''' \<rparr>], focused = Some 0 \<rparr> = Inr (d', out) \<and>
      color (inputs d' ! 0) = ''black'')"
proof -
  let ?p = "(default_params ''%Cloze%'') \<lparr> check_answers := True, case_sensitivity := False \<rparr>"
  let ?d = "\<lparr> innerHTML = [Literal '''', TextInput 0, Literal ''''], button = ''OK'',
             inputs = [\<lparr> value = ''CLOZE'', color = '''' \<rparr>], focused = Some 0 \<rparr>"
  have s: "getSolutions (text ?p) (case_sensitivity ?p) = [[''cloze'']]"
    by (simp add: getSolutions_eq solution_of_def trim_def is_whitespace_def toLowerCase_def
        lower_char_def char_of_eq_iff default_params_def)
  have h1: "\<not> case_sensitivity ?p" and h2: "check_answers ?p"
    by (simp_all add: default_params_def)
  have h3: "length (inputs ?d) = length (getSolutions (text ?p) (case_sensitivity ?p))"
    unfolding s by simp
  have h4: "0 < length (inputs ?d)" by simp
  have h5: "''cloze'' \<in> set (getSolutions (text ?p) (case_sensitivity ?p) ! 0)"
    unfolding s by simp
  have ha: "ascii_string ''cloze''"
    by (simp add: ascii_string_def)
  have h6: "trim ''cloze'' = ''cloze''"
    by (simp add: trim_def is_whitespace_def)
  have h7: "case_variant ''CLOZE'' ''cloze''"
    by (simp add: case_variant_def upper_char_def eq_char_of_iff)
  have h8: "value (inputs ?d ! 0) = ''CLOZE''" by simp
  from case_insensitive_match[OF h1 h2 h3 h4 h5 ha h6 h7 h8] h1 h5 ha h6 h7 show ?thesis
    by (auto simp: default_params_def)
qed

text \<open>
  The claim as stated fails, already on ASCII text: the text \<open>%yes / no%\<close> is trimmed
  before it is split at \<open>/\<close>, so its alternatives are \<open>"yes "\<close> and \<open>" no"\<close>; the value
  \<open>"YES "\<close> differs from \<open>"yes "\<close> in case only, its answer is \<open>"yes"\<close>, and the field is
  marked \<open>red\<close>.
\<close>

theorem case_insensitive_match_counterexample:
  "''yes '' \<in> set (getSolutions ''%yes / no%'' False ! 0) \<and>
   case_variant ''YES '' ''yes '' \<and>
   trial ((default_params ''%yes / no%'') \<lparr> check_answers := True, case_sensitivity := False \<rparr>) =
     Inr \<lparr> innerHTML = [Literal '''', TextInput 0, Literal ''''], button = ''OK'',
           inputs = [\<lparr> value = '''', color = '''' \<rparr>], focused = Some 0 \<rparr> \<and>
   check ((default_params ''%yes / no%'') \<lparr> check_answers := True, case_sensitivity := False \<rparr>)
     \<lparr> innerHTML = [Literal '''', TextInput 0, Literal ''''], button = ''OK'',
       inputs = [\<lparr> value = ''YES '', color = '''' \<rparr>], focused = Some 0 \<rparr> =
     Inr (\<lparr> innerHTML = [Literal '''', TextInput 0, Literal ''''], button = ''OK'',
            inputs = [\<lparr> value = ''YES '', color = ''red'' \<rparr>], focused = Some 0 \<rparr>, MistakeFn)"
proof -
  let ?p = "(default_params ''%yes / no%'') \<lparr> check_answers := True, case_sensitivity := False \<rparr>"
  have s: "getSolutions ''%yes / no%'' False = [[''yes '', '' no'']]"
    by (simp add: getSolutions_eq solution_of_def trim_def is_whitespace_def toLowerCase_def
        lower_char_def char_of_eq_iff)
  have v: "case_variant ''YES '' ''yes ''"
    by (simp add: case_variant_def upper_char_def eq_char_of_iff)
  have t: "trial ?p =
     Inr \<lparr> innerHTML = [Literal '''', TextInput 0, Literal ''''], button = ''OK'',
           inputs = [\<lparr> value = '''', color = '''' \<rparr>], focused = Some 0 \<rparr>"
    by (simp add: trial_def render_loop.simps default_params_def)
  have a: "trim (toLowerCase ''YES '') = ''yes''"
    by (simp add: trim_def is_whitespace_def toLowerCase_def lower_char_def char_of_eq_iff)
  have c: "check ?p
     \<lparr> innerHTML = [Literal '''', TextInput 0, Literal ''''], button = ''OK'',
       inputs = [\<lparr> value = ''YES '', color = '''' \<rparr>], focused = Some 0 \<rparr> =
     Inr (\<lparr> innerHTML = [Literal '''', TextInput 0, Literal ''''], button = ''OK'',
            inputs = [\<lparr> value = ''YES '', color = ''red'' \<rparr>], focused = Some 0 \<rparr>, MistakeFn)"
    by (simp add: check_def check_loop.simps check_step_def array_includes_def s a
        default_params_def)
  from s v t c show ?thesis by simp
qed

section \<open>A text without markers\<close>

lemma split_no_separator: "sep \<notin> set s \<Longrightarrow> split sep s = [s]"
  by (induction s) auto

lemma trial_without_markers:
  assumes "count_list (text p) (CHR ''%'') = 0"
  shows "trial p =
     (if autofocus p then Inl TypeError
      else Inr \<lparr> innerHTML = [Literal (text p)], button = button_text p, inputs = [],
                 focused = None \<rparr>)"
proof -
  from assms have "CHR ''%'' \<notin> set (text p)" by (simp add: count_list_0_iff)
  then have "split (CHR ''%'') (text p) = [text p]" by (rule split_no_separator)
  with assms show ?thesis by (simp add: trial_eq node_at_def)
qed

lemma check_without_markers:
  assumes "count_list (text p) (CHR ''%'') = 0"
  shows "check p d = Inr (d, FinishTrial \<lparr> response = [] \<rparr>)"
proof -
  from assms have "length (getSolutions (text p) (case_sensitivity p)) = 0"
    by (simp add: length_getSolutions)
  then have "getSolutions (text p) (case_sensitivity p) = []" by simp
  then show ?thesis by (simp add: check_def check_loop.simps)
qed

text \<open>
  C2: for the text \<open>Hello\<close>, which has no marker, the trial with the default parameters
  (initial focus enabled) raises a \<open>TypeError\<close>: no element has the id \<open>input0\<close>. With
  the initial focus disabled the surface has no input and the first submit finishes the
  trial with the empty response.
\<close>

theorem zero_markers_autofocus:
  "trial (default_params ''Hello'') = Inl TypeError \<and>
   trial ((default_params ''Hello'') \<lparr> autofocus := False \<rparr>) =
     Inr \<lparr> innerHTML = [Literal ''Hello''], button = ''OK'', inputs = [], focused = None \<rparr> \<and>
   check ((default_params ''Hello'') \<lparr> autofocus := False \<rparr>)
     \<lparr> innerHTML = [Literal ''Hello''], button = ''OK'', inputs = [], focused = None \<rparr> =
     Inr (\<lparr> innerHTML = [Literal ''Hello''], button = ''OK'', inputs = [], focused = None \<rparr>,
          FinishTrial \<lparr> response = [] \<rparr>)"
  by (simp add: trial_def render_loop.simps default_params_def check_def check_loop.simps
      getSolutions_def getSolutions_loop.simps)

section \<open>Simulated data\<close>

lemma getSolutions_not_Nil: "\<forall>wl \<in> set (getSolutions t cs). wl \<noteq> []"
  by (auto simp: getSolutions_eq solution_of_not_Nil)

lemma create_simulation_data_eq:
  assumes "\<forall>k. 0 \<le> Math_random h k \<and> Math_random h k < 1"
  shows "create_simulation_data h p =
     Inr (mergeSimulationData h
            \<lparr> response = map (simulated_answer h 0 0 (getSolutions (text p) (case_sensitivity p)))
                           [0..<length (getSolutions (text p) (case_sensitivity p))] \<rparr>,
          map service_of (getSolutions (text p) (case_sensitivity p)))"
  unfolding create_simulation_data_def
  by (simp add: simulation_loop_eq[OF assms getSolutions_not_Nil] calls_of_def)




section \<open>The result of a trial\<close>

text \<open>
  C7: a submit that finishes the trial delivers one payload whose field \<open>response\<close> is
  the list of the answers of the fields, in the order of the blanks and as long as the list
  of parsed blanks. The data-only simulation (with \<open>Math.random\<close> in \<open>[0, 1)\<close> and no
  simulation options changing the data) finishes the trial with one payload whose
  \<open>response\<close> has one simulated answer per parsed blank, in the order of the blanks.
\<close>

theorem finish_payload:
  assumes len: "length (inputs d) = length (getSolutions (text p) (case_sensitivity p))"
    and rnd: "\<forall>k. 0 \<le> Math_random h k \<and> Math_random h k < 1"
    and merge: "\<forall>data. mergeSimulationData h data = data"
  shows "(\<exists>d' out. check p d = Inr (d', out) \<and>
            (out = MistakeFn \<or> out = FinishTrial \<lparr> response = map (answer_of p) (inputs d) \<rparr>) \<and>
            length (map (answer_of p) (inputs d)) =
              length (getSolutions (text p) (case_sensitivity p))) \<and>
         (\<exists>data. simulate_data_only h p = Inr (FinishTrial data) \<and>
            length (response data) = length (getSolutions (text p) (case_sensitivity p)) \<and>
            response data =
              map (simulated_answer h 0 0 (getSolutions (text p) (case_sensitivity p)))
                [0..<length (getSolutions (text p) (case_sensitivity p))])"
proof
  from check_result[OF len] obtain flds' where
    "check p d =
       Inr (d \<lparr> inputs := flds' \<rparr>,
            if (check_answers p \<and>
                  (\<exists>j < length (inputs d). answer_of p (inputs d ! j) \<notin>
                     set (getSolutions (text p) (case_sensitivity p) ! j))) \<or>
               (\<not> allow_blanks p \<and> (\<exists>j < length (inputs d). answer_of p (inputs d ! j) = ''''))
            then MistakeFn
            else FinishTrial \<lparr> response = map (answer_of p) (inputs d) \<rparr>)"
    by blast
  with len show "\<exists>d' out. check p d = Inr (d', out) \<and>
            (out = MistakeFn \<or> out = FinishTrial \<lparr> response = map (answer_of p) (inputs d) \<rparr>) \<and>
            length (map (answer_of p) (inputs d)) =
              length (getSolutions (text p) (case_sensitivity p))"
    by auto
next
  show "\<exists>data. simulate_data_only h p = Inr (FinishTrial data) \<and>
            length (response data) = length (getSolutions (text p) (case_sensitivity p)) \<and>
            response data =
              map (simulated_answer h 0 0 (getSolutions (text p) (case_sensitivity p)))
                [0..<length (getSolutions (text p) (case_sensitivity p))]"
    unfolding simulate_data_only_def create_simulation_data_eq[OF rnd]
    using merge by simp
qed

text \<open>
  An instance: the text \<open>a %b% c\<close>, the default parameters and the example host; the
  submit with the value \<open>b\<close> and the simulation both finish with the response \<open>b\<close>.
\<close>

theorem finish_payload_witness:
  "length (inputs \<lparr> innerHTML = [Literal ''a '', TextInput 0, Literal '' c''], button = ''OK'',
                     inputs = [\<lparr> value = '' b '', color = '''' \<rparr>], focused = Some 0 \<rparr>) =
     length (getSolutions (text (default_params ''a %b% c''))
               (case_sensitivity (default_params ''a %b% c''))) \<and>
   (\<forall>k. 0 \<le> Math_random example_host k \<and> Math_random example_host k < 1) \<and>
   (\<forall>data. mergeSimulationData example_host data = data) \<and>
   (\<exists>d'. check (default_params ''a %b% c'')
        \<lparr> innerHTML = [Literal ''a '', TextInput 0, Literal '' c''], button = ''OK'',
          inputs = [\<lparr> value = '' b '', color = '''' \<rparr>], focused = Some 0 \<rparr> =
        Inr (d', FinishTrial \<lparr> response = [''b''] \<rparr>)) \<and>
   simulate_data_only example_host (default_params ''a %b% c'') =
     Inr (FinishTrial \<lparr> response = [''b''] \<rparr>)"
proof -
  let ?p = "default_params ''a %b% c''"
  let ?d = "\<lparr> innerHTML = [Literal ''a '', TextInput 0, Literal '' c''], button = ''OK'',
             inputs = [\<lparr> value = '' b '', color = '''' \<rparr>], focused = Some 0 \<rparr>"
  have s: "getSolutions (text ?p) (case_sensitivity ?p) = [[''b'']]"
    by (simp add: getSolutions_eq solution_of_def trim_def is_whitespace_def default_params_def)
  have h1: "length (inputs ?d) = length (getSolutions (text ?p) (case_sensitivity ?p))"
    unfolding s by simp
  have h2: "\<forall>k. 0 \<le> Math_random example_host k \<and> Math_random example_host k < 1"
    by (simp add: example_host_def)
  have h3: "\<forall>data. mergeSimulationData example_host data = data"
    by (simp add: example_host_def)
  have a: "answer_of ?p \<lparr> value = '' b '', color = '''' \<rparr> = ''b''"
    by (simp add: answer_of_def trim_def is_whitespace_def default_params_def)
  have m: "\<And>d'. check ?p ?d \<noteq> Inr (d', MistakeFn)"
    by (simp add: check_def check_loop.simps check_step_def s default_params_def)
  have sim: "simulated_answer example_host 0 0 [[''b'']] 0 = ''b''"
    by (simp add: simulated_answer_def array_includes_def example_host_def)
  from finish_payload[OF h1 h2 h3] m have
    "(\<exists>d'. check ?p ?d = Inr (d', FinishTrial \<lparr> response = [''b''] \<rparr>)) \<and>
     simulate_data_only example_host ?p = Inr (FinishTrial \<lparr> response = [''b''] \<rparr>)"
    unfolding s by (auto simp: a sim)
  with h1 h2 h3 show ?thesis by blast
qed

section \<open>The schedule of the visual simulation\<close>

text \<open>
  With positive latency samples (and \<open>Math.random\<close> in \<open>[0, 1)\<close>, no simulation options
  changing the data), whenever the surface renders, \<open>simulate_visual\<close> schedules one fill
  per parsed blank followed by the click; the fill of the field \<open>j\<close> is at the sum of the
  samples \<open>0..j\<close>, the click at the sum of the samples \<open>0..n\<close>; the times of the events in
  this order are strictly increasing and positive, so the click is the last and the latest
  event. When the text has no marker and the initial focus is enabled, the rendering
  raises and nothing is scheduled.
\<close>

lemma visual_schedule_rendered:
  assumes pos: "\<forall>k. 0 < sampleExGaussian h k"
    and rnd: "\<forall>k. 0 \<le> Math_random h k \<and> Math_random h k < 1"
    and merge: "\<forall>data. mergeSimulationData h data = data"
  shows "(autofocus p \<and> count_list (text p) (CHR ''%'') = 0 \<longrightarrow>
            simulate_visual h p = Inl TypeError) \<and>
         (\<not> (autofocus p \<and> count_list (text p) (CHR ''%'') = 0) \<longrightarrow>
            (\<exists>display fills t.
               simulate_visual h p = Inr (display, fills @ [ClickTarget t]) \<and>
               trial p = Inr display \<and>
               length fills = length (getSolutions (text p) (case_sensitivity p)) \<and>
               (\<forall>j < length fills. \<exists>v.
                  fills ! j = FillTextInput (Some j) v (sum (sampleExGaussian h) {..j})) \<and>
               t = sum (sampleExGaussian h) {..length fills} \<and>
               sorted_wrt (<) (map time_of (fills @ [ClickTarget t])) \<and>
               (\<forall>e \<in> set (fills @ [ClickTarget t]). 0 < time_of e)))"
proof (intro conjI impI)
  let ?sols = "getSolutions (text p) (case_sensitivity p)"
  let ?n = "length ?sols"
  let ?resp = "map (simulated_answer h 0 0 ?sols) [0..<?n]"
  let ?s = "sampleExGaussian h"
  have data: "create_simulation_data h p = Inr (\<lparr> response = ?resp \<rparr>, map service_of ?sols)"
    using create_simulation_data_eq[OF rnd, of p] merge by simp
  {
    assume "autofocus p \<and> count_list (text p) (CHR ''%'') = 0"
    then show "simulate_visual h p = Inl TypeError"
      unfolding simulate_visual_def data by (simp add: trial_eq)
  }
  {
    assume ok: "\<not> (autofocus p \<and> count_list (text p) (CHR ''%'') = 0)"
    then obtain display where t: "trial p = Inr display"
      by (auto simp: trial_eq)
    then have ni: "length (inputs display) = ?n"
      by (rule trial_inputs_length)
    let ?fills = "map (\<lambda>j. FillTextInput (Some j) (?resp ! j) (sum ?s {..j})) [0..<?n]"
    let ?t = "sum ?s {..?n}"
    have f: "fill_loop h ?n ?resp 0 (?s 0) [] = (?fills, ?t)"
      using fill_loop_eq[of 0 ?resp h ?n "?s 0" "[]"]
      by (simp add: sum_atMost_split cong: map_cong)
    have sv: "simulate_visual h p = Inr (display, ?fills @ [ClickTarget ?t])"
      unfolding simulate_visual_def data by (simp add: t ni f)
    have times: "map time_of (?fills @ [ClickTarget ?t]) = map (\<lambda>j. sum ?s {..j}) [0..<Suc ?n]"
      by (simp add: comp_def)
    have "sorted_wrt (\<lambda>i j. sum ?s {..i} < sum ?s {..j}) [0..<Suc ?n]"
      by (rule sorted_wrt_mono_rel[where P = "(<)"])
         (simp_all add: sum_atMost_strict_mono[OF pos] del: upt_Suc)
    then have sorted: "sorted_wrt (<) (map time_of (?fills @ [ClickTarget ?t]))"
      unfolding times by (simp add: sorted_wrt_map del: upt_Suc)
    have positive: "\<forall>e \<in> set (?fills @ [ClickTarget ?t]). 0 < time_of e"
      using sum_atMost_pos[OF pos] by auto
    have nth: "\<forall>j < length ?fills. \<exists>v.
                  ?fills ! j = FillTextInput (Some j) v (sum ?s {..j})"
      by simp
    from sv t sorted positive nth
    show "\<exists>display fills t.
               simulate_visual h p = Inr (display, fills @ [ClickTarget t]) \<and>
               trial p = Inr display \<and>
               length fills = ?n \<and>
               (\<forall>j < length fills. \<exists>v.
                  fills ! j = FillTextInput (Some j) v (sum ?s {..j})) \<and>
               t = sum ?s {..length fills} \<and>
               sorted_wrt (<) (map time_of (fills @ [ClickTarget t])) \<and>
               (\<forall>e \<in> set (fills @ [ClickTarget t]). 0 < time_of e)"
      by (intro exI[of _ display] exI[of _ ?fills] exI[of _ ?t]) simp
  }
qed

text \<open>
  An instance with the example host, whose samples are all 750: the text \<open>%a% %b%\<close> has
  its two fills and the click at 2250.
\<close>

lemma visual_schedule_example:
  "\<exists>display fills t.
      simulate_visual example_host (default_params ''%a% %b%'') =
        Inr (display, fills @ [ClickTarget t]) \<and>
      length fills = 2 \<and> t = 2250 \<and>
      sorted_wrt (<) (map time_of (fills @ [ClickTarget t]))"
proof -
  let ?p = "default_params ''%a% %b%''"
  have h1: "\<forall>k. 0 < sampleExGaussian example_host k"
    by (simp add: example_host_def)
  have h2: "\<forall>k. 0 \<le> Math_random example_host k \<and> Math_random example_host k < 1"
    by (simp add: example_host_def)
  have h3: "\<forall>data. mergeSimulationData example_host data = data"
    by (simp add: example_host_def)
  have s: "length (getSolutions (text ?p) (case_sensitivity ?p)) = 2"
    by (simp add: length_getSolutions default_params_def)
  have c: "count_list (text ?p) (CHR ''%'') \<noteq> 0"
    by (simp add: default_params_def)
  have e: "sampleExGaussian example_host = (\<lambda>k. 750)"
    by (simp add: example_host_def)
  from visual_schedule_rendered[OF h1 h2 h3, of ?p] c show ?thesis
    unfolding s e by auto
qed

text \<open>
  C8: the claim fails for a text without markers under the default parameters. For the
  text \<open>Hello\<close> and any host, \<open>simulate_visual\<close> raises the \<open>TypeError\<close> of \<open>trial\<close> (no
  element has the id \<open>input0\<close>) before any event is scheduled, so no click is scheduled
  at all. With the initial focus disabled the same text renders and the click is the one
  scheduled event, at the first latency sample.
\<close>

theorem visual_schedule_zero_markers:
  "simulate_visual h (default_params ''Hello'') = Inl TypeError \<and>
   simulate_visual example_host ((default_params ''Hello'') \<lparr> autofocus := False \<rparr>) =
     Inr (\<lparr> innerHTML = [Literal ''Hello''], button = ''OK'', inputs = [], focused = None \<rparr>,
          [ClickTarget 750])"
proof -
  have s: "getSolutions ''Hello'' True = []"
    by (simp add: getSolutions_def getSolutions_loop.simps)
  have "simulate_visual h (default_params ''Hello'') = Inl TypeError"
    by (simp add: simulate_visual_def create_simulation_data_def default_params_def s
        trial_def render_loop.simps)
  moreover have
    "simulate_visual example_host ((default_params ''Hello'') \<lparr> autofocus := False \<rparr>) =
     Inr (\<lparr> innerHTML = [Literal ''Hello''], button = ''OK'', inputs = [], focused = None \<rparr>,
          [ClickTarget 750])"
    by (simp add: simulate_visual_def create_simulation_data_def default_params_def s
        trial_def render_loop.simps fill_loop.simps example_host_def)
  ultimately show ?thesis by simp
qed

end
